theory Spec2Isabelle
  imports Complex_Main "HOL-Library.Word" "HOL-Library.Sublist"
begin

unbundle bit_operations_syntax

section \<open>The serial link stress tester (run.go)\<close>

text \<open>
  The program drives serial devices, reads a clock and draws random numbers. None of these
  is computed by the program, so the model takes them as inputs: a \<open>session\<close> holds
  everything the outside world hands to one call of \<open>test_transmission\<close>, and a
  \<open>world\<close> gives the session of the k-th call made by a search. Go's \<open>int\<close> has 64
  bits here: it is modelled by the \<open>int\<close> of the same value, between \<open>- 2 ^ 63\<close> and
  \<open>2 ^ 63 - 1\<close>, and the results that can leave this range, the sum of line 120 and the
  quotient of a division, are wrapped around by \<open>wrap64\<close>. The counters of lines 157
  and 188 stay below a bound of the range and cannot overflow. Go's run-time panics are
  written out as values of the type \<open>panic\<close>. Bytes are \<open>char\<close>s.
\<close>

subsection \<open>Run-time panics\<close>

datatype panic =
    CheckPanic string           \<comment> \<open>\<open>check(err)\<close>: \<open>panic(err.Error())\<close>\<close>
  | IntegerDivideByZero         \<comment> \<open>integer division by zero\<close>
  | SliceBoundsOutOfRange       \<comment> \<open>\<open>buf[0:n]\<close> with \<open>n\<close> beyond the capacity of \<open>buf\<close>\<close>
  | MakesliceLenOutOfRange      \<comment> \<open>\<open>make([]rune, n)\<close> with negative \<open>n\<close>\<close>

text \<open>\<open>check\<close> (run.go, lines 230-234): a non-nil error panics with its message.\<close>

definition check :: "string option \<Rightarrow> panic + unit" where
  "check err = (case err of Some msg \<Rightarrow> Inl (CheckPanic msg) | None \<Rightarrow> Inr ())"

text \<open>The value of a 64-bit signed integer after overflow: two's complement wrap-around.\<close>

definition wrap64 :: "int \<Rightarrow> int" where
  "wrap64 x = (x + 2 ^ 63) mod 2 ^ 64 - 2 ^ 63"

text \<open>
  Go's integer division: panics on a zero divisor, truncates towards zero otherwise; the
  one quotient out of range, that of \<open>- 2 ^ 63\<close> by \<open>- 1\<close>, wraps around.
\<close>

definition go_div :: "int \<Rightarrow> int \<Rightarrow> panic + int" where
  "go_div a b =
     (if b = 0 then Inl IntegerDivideByZero
      else Inr (wrap64 (sgn a * sgn b * (\<bar>a\<bar> div \<bar>b\<bar>))))"

subsection \<open>Library functions the program calls\<close>

text \<open>
  \<open>hash/crc32\<close>, the generic implementation: \<open>simpleMakeTable\<close> fills the 256 entries of
  the table, \<open>simpleUpdate\<close> consumes the data byte by byte. A table \<open>[256]uint32\<close> is a
  function of the byte that indexes it.
\<close>

type_synonym uint32 = "32 word"
type_synonym byte = "8 word"

definition crc_shift :: "uint32 \<Rightarrow> uint32 \<Rightarrow> uint32" where
  "crc_shift poly crc = (if crc AND 1 = 1 then drop_bit 1 crc XOR poly else drop_bit 1 crc)"

definition simpleMakeTable :: "uint32 \<Rightarrow> byte \<Rightarrow> uint32" where
  "simpleMakeTable poly i = (crc_shift poly ^^ 8) (ucast i)"

definition simpleUpdate :: "uint32 \<Rightarrow> (byte \<Rightarrow> uint32) \<Rightarrow> string \<Rightarrow> uint32" where
  "simpleUpdate crc tab p =
     NOT (foldl (\<lambda>c v. tab (ucast c XOR of_char v) XOR drop_bit 8 c) (NOT crc) p)"

definition Checksum :: "string \<Rightarrow> (byte \<Rightarrow> uint32) \<Rightarrow> uint32" where
  "Checksum data tab = simpleUpdate 0 tab data"

text \<open>
  \<open>strconv.FormatUint(u, 16)\<close>: the digits are produced from the least significant one,
  while \<open>u >= 16\<close>; the last digit written is the most significant one.
\<close>

definition digits :: string where
  "digits = ''0123456789abcdefghijklmnopqrstuvwxyz''"

function formatBits16 :: "nat \<Rightarrow> string \<Rightarrow> string" where
  "formatBits16 u a =
     (if 16 \<le> u then formatBits16 (u div 16) (digits ! (u mod 16) # a) else digits ! u # a)"
  by pat_completeness auto
termination
  by (relation "measure (\<lambda>(u, a). u)") auto

declare formatBits16.simps [simp del]

definition FormatUint16 :: "nat \<Rightarrow> string" where
  "FormatUint16 u = formatBits16 u []"

text \<open>\<open>strings.HasSuffix\<close>.\<close>

definition HasSuffix :: "string \<Rightarrow> string \<Rightarrow> bool" where
  "HasSuffix s suff = (length suff \<le> length s \<and> drop (length s - length suff) s = suff)"

text \<open>
  \<open>rand.Intn(n)\<close>: the generator, seeded from the clock at the start of every call of
  \<open>test_transmission\<close>, is a sequence of raw draws; the k-th call of \<open>Intn\<close> reduces the
  k-th draw to the range \<open>[0, n)\<close>.
\<close>

definition Intn :: "(nat \<Rightarrow> nat) \<Rightarrow> nat \<Rightarrow> nat \<Rightarrow> nat" where
  "Intn src k n = src k mod n"

subsection \<open>Payload generator (run.go, lines 13-21)\<close>

definition letters :: string where
  "letters = ''abcdefghijklmnopqrstuvwxyzABCDEFGHIJKLMNOPQRSTUVWXYZ''"

definition randSeq :: "(nat \<Rightarrow> nat) \<Rightarrow> int \<Rightarrow> panic + string" where
  "randSeq src n =
     (if n < 0 then Inl MakesliceLenOutOfRange
      else Inr (map (\<lambda>i. letters ! Intn src i (length letters)) [0..<nat n]))"

subsection \<open>The outside world\<close>

text \<open>
  What one device does in one iteration of the loop of \<open>test_transmission\<close>: the error
  of \<open>serial.Open\<close>, the errors of \<open>Write\<close> and \<open>Read\<close>, the bytes \<open>Read\<close> stored at
  the front of the buffer, and the time between the two readings of the clock, in
  nanoseconds (a \<open>time.Duration\<close>).
\<close>

record response =
  open_err :: "string option"
  write_err :: "string option"
  read_err :: "string option"
  rx :: string
  elapsed :: int

text \<open>A device answers to the port name and baud rate it is opened with and the packet
  written to it.\<close>

type_synonym device = "string \<Rightarrow> int \<Rightarrow> string \<Rightarrow> response"

record session =
  draws :: "nat \<Rightarrow> nat"       \<comment> \<open>the random generator after \<open>rand.Seed\<close>\<close>
  devices :: "nat \<Rightarrow> device"  \<comment> \<open>the device met by the k-th iteration of the loop\<close>

type_synonym world = "nat \<Rightarrow> session"

text \<open>The packets handed to \<open>Write\<close>, with the port they went to, in the order written.\<close>

type_synonym writes = "(string \<times> string) list"

subsection \<open>Transmission tester (run.go, lines 23-95)\<close>

text \<open>Lines 46-49: the checksum text and the packet.\<close>

definition checksum_text :: "string \<Rightarrow> string" where
  "checksum_text data = FormatUint16 (unat (Checksum data (simpleMakeTable 0xEDB88320)))"

text \<open>Line 67 and 71: a buffer of 10000 zero bytes, whose front \<open>Read\<close> overwrites.\<close>

definition read_buf :: "string \<Rightarrow> string" where
  "read_buf received = take 10000 received @ replicate (10000 - length received) (CHR 0x00)"

text \<open>Line 81. The slice \<open>buf[0:len(packet)]\<close> panics beyond the capacity of \<open>buf\<close>.\<close>

definition packet_valid :: "string \<Rightarrow> string \<Rightarrow> string \<Rightarrow> panic + bool" where
  "packet_valid buf packet checksum =
     (if length buf < length packet then Inl SliceBoundsOutOfRange
      else Inr (HasSuffix (take (length packet) buf) checksum))"

text \<open>
  The loop of lines 55-92, from the k-th device on. The errors of \<open>Write\<close> and \<open>Read\<close>
  are dropped by the calls of lines 70 and 71; the second \<open>check(err)\<close>, at line 77, tests
  the error of \<open>serial.Open\<close> again. The deferred \<open>Close\<close> calls have no effect on the
  result and are left out.
\<close>

fun tx_loop ::
  "(nat \<Rightarrow> device) \<Rightarrow> int \<Rightarrow> string \<Rightarrow> string \<Rightarrow> nat \<Rightarrow> string list \<Rightarrow> real list \<Rightarrow> writes
    \<Rightarrow> (panic + bool \<times> real list) \<times> writes" where
  "tx_loop devs speed packet checksum k [] delays sent = (Inr (True, delays), sent)"
| "tx_loop devs speed packet checksum k (port # ports) delays sent =
     (let r = devs k port speed packet; err = open_err r in
      case check err of
        Inl p \<Rightarrow> (Inl p, sent)
      | Inr _ \<Rightarrow>
          (let buf = read_buf (rx r); sent' = sent @ [(port, packet)] in
           case check err of
             Inl p \<Rightarrow> (Inl p, sent')
           | Inr _ \<Rightarrow>
               (case packet_valid buf packet checksum of
                  Inl p \<Rightarrow> (Inl p, sent')
                | Inr valid \<Rightarrow>
                    if \<not> valid then (Inr (False, delays), sent')
                    else tx_loop devs speed packet checksum (Suc k) ports
                           (delays @ [real_of_int (elapsed r)]) sent')))"

definition test_transmission_io ::
  "session \<Rightarrow> string list \<Rightarrow> int \<Rightarrow> int \<Rightarrow> (panic + bool \<times> real list) \<times> writes" where
  "test_transmission_io s ports len speed =
     (case randSeq (draws s) len of
        Inl p \<Rightarrow> (Inl p, [])
      | Inr data \<Rightarrow>
          (let checksum = checksum_text data; packet = data @ checksum
           in tx_loop (devices s) speed packet checksum 0 ports [] []))"

text \<open>What the caller of \<open>test_transmission\<close> gets: the pair it returns, or the panic.\<close>

definition test_transmission ::
  "session \<Rightarrow> string list \<Rightarrow> int \<Rightarrow> int \<Rightarrow> panic + bool \<times> real list" where
  "test_transmission s ports len speed = fst (test_transmission_io s ports len speed)"

subsection \<open>Speed search (run.go, lines 97-136)\<close>

text \<open>
  The inner loop of lines 120-130, entered at \<open>speed\<close> after \<open>n\<close> transmissions. It
  yields the values of \<open>min_speed\<close> and \<open>last_working_speed\<close> when it is left, by the
  \<open>break\<close> or by its condition. The step \<open>max_speed / min_speed\<close> is computed by the
  post statement of every iteration, and the sum \<open>speed + max_speed / min_speed\<close> wraps
  around beyond \<open>2 ^ 63 - 1\<close>. The loop need not end: the result is an \<open>option\<close>,
  \<open>None\<close> for a loop that runs forever.
\<close>

partial_function (option) speed_sweep ::
  "world \<Rightarrow> string list \<Rightarrow> int \<Rightarrow> int \<Rightarrow> int \<Rightarrow> int \<Rightarrow> int \<Rightarrow> nat
    \<Rightarrow> ((panic + int \<times> int) \<times> nat) option" where
  "speed_sweep w ports len max_speed min_speed speed last_working_speed n =
     (if speed < max_speed then
        (case test_transmission (w n) ports len speed of
           Inl p \<Rightarrow> Some (Inl p, Suc n)
         | Inr (res, d) \<Rightarrow>
             if res then
               (case go_div max_speed min_speed of
                  Inl p \<Rightarrow> Some (Inl p, Suc n)
                | Inr q \<Rightarrow>
                    speed_sweep w ports len max_speed min_speed (wrap64 (speed + q)) speed (Suc n))
             else Some (Inr (speed, last_working_speed), Suc n))
      else Some (Inr (min_speed, last_working_speed), n))"

text \<open>
  The outer loop of lines 116-134 with \<open>i\<close> passes left. The variable \<open>res\<close> of line 114
  is read at line 131 and assigned nowhere: line 122 declares, with \<open>:=\<close>, a variable
  \<open>res\<close> of its own in the body of the inner loop. So \<open>res\<close> goes through the passes
  unchanged.
\<close>

fun speed_passes ::
  "world \<Rightarrow> string list \<Rightarrow> int \<Rightarrow> int \<Rightarrow> nat \<Rightarrow> bool \<Rightarrow> int \<Rightarrow> int \<Rightarrow> nat
    \<Rightarrow> ((panic + int) \<times> nat) option" where
  "speed_passes w ports len max_speed 0 res min_speed last_working_speed n =
     Some (Inr last_working_speed, n)"
| "speed_passes w ports len max_speed (Suc i) res min_speed last_working_speed n =
     (case go_div max_speed min_speed of
        Inl p \<Rightarrow> Some (Inl p, n)
      | Inr q \<Rightarrow>
          if q < 1 then Some (Inr last_working_speed, n)
          else
            (case speed_sweep w ports len max_speed min_speed min_speed last_working_speed n of
               None \<Rightarrow> None
             | Some (Inl p, n') \<Rightarrow> Some (Inl p, n')
             | Some (Inr (min_speed', last_working_speed'), n') \<Rightarrow>
                 if res then Some (Inr last_working_speed', n')
                 else speed_passes w ports len max_speed i res min_speed' last_working_speed' n'))"

text \<open>
  \<open>test_for_speed\<close>, called after \<open>n\<close> transmissions: the speed it returns, or the panic,
  and the number of transmissions made when it ends.
\<close>

definition test_for_speed ::
  "world \<Rightarrow> string list \<Rightarrow> int \<Rightarrow> int \<Rightarrow> int \<Rightarrow> nat \<Rightarrow> ((panic + int) \<times> nat) option" where
  "test_for_speed w ports len min_speed max_speed n =
     speed_passes w ports len max_speed 2 False min_speed 0 n"

subsection \<open>Length search (run.go, lines 138-169)\<close>

text \<open>The inner loop is left by the \<open>return\<close> of line 164 or by its condition.\<close>

datatype sweep_exit = Returned int | Completed int

function length_sweep ::
  "world \<Rightarrow> string list \<Rightarrow> int \<Rightarrow> int \<Rightarrow> int \<Rightarrow> int \<Rightarrow> nat \<Rightarrow> (panic + sweep_exit) \<times> nat" where
  "length_sweep w ports speed max_length len last_working_length n =
     (if len < max_length then
        (case test_transmission (w n) ports len speed of
           Inl p \<Rightarrow> (Inl p, Suc n)
         | Inr (res, d) \<Rightarrow>
             if res then length_sweep w ports speed max_length (len + 1) len (Suc n)
             else (Inr (Returned last_working_length), Suc n))
      else (Inr (Completed last_working_length), n))"
  by pat_completeness auto
termination
  by (relation "measure (\<lambda>(w, ports, speed, max_length, len, last, n). nat (max_length - len))")
    auto

declare length_sweep.simps [simp del]

fun length_passes ::
  "world \<Rightarrow> string list \<Rightarrow> int \<Rightarrow> int \<Rightarrow> int \<Rightarrow> nat \<Rightarrow> int \<Rightarrow> nat \<Rightarrow> (panic + int) \<times> nat" where
  "length_passes w ports speed min_length max_length 0 last_working_length n =
     (Inr last_working_length, n)"
| "length_passes w ports speed min_length max_length (Suc i) last_working_length n =
     (case length_sweep w ports speed max_length min_length last_working_length n of
        (Inl p, n') \<Rightarrow> (Inl p, n')
      | (Inr (Returned v), n') \<Rightarrow> (Inr v, n')
      | (Inr (Completed v), n') \<Rightarrow> length_passes w ports speed min_length max_length i v n')"

definition test_for_length ::
  "world \<Rightarrow> string list \<Rightarrow> int \<Rightarrow> int \<Rightarrow> int \<Rightarrow> nat \<Rightarrow> (panic + int) \<times> nat" where
  "test_for_length w ports speed min_length max_length n =
     length_passes w ports speed min_length max_length 2 0 n"

subsection \<open>Delay profiler (run.go, lines 171-228)\<close>

text \<open>
  A \<open>float64\<close> is modelled by the real number it stands for, or by one of the special
  values; rounding is not modelled. Every element of \<open>delays\<close> is the conversion of a
  \<open>time.Duration\<close>, and \<open>total\<close>, \<open>min_delay\<close> and \<open>max_delay\<close> are sums and copies of
  such elements: they are finite, and only the division of line 221 can yield a special
  value. Dividing by zero does not panic for floating-point operands: it gives an infinity,
  or NaN for \<open>0/0\<close>.
\<close>

datatype float64 = Finite real | PosInf | NegInf | NaN

definition f64_div :: "real \<Rightarrow> real \<Rightarrow> float64" where
  "f64_div a b =
     (if b \<noteq> 0 then Finite (a / b) else if a = 0 then NaN else if 0 < a then PosInf else NegInf)"

text \<open>The loop of lines 188-200, from iteration \<open>i\<close> on.\<close>

function delay_runs ::
  "world \<Rightarrow> string list \<Rightarrow> int \<Rightarrow> int \<Rightarrow> int \<Rightarrow> int \<Rightarrow> real list \<Rightarrow> nat
    \<Rightarrow> (panic + real list) \<times> nat" where
  "delay_runs w ports len speed samples i delays n =
     (if i < samples then
        (case test_transmission (w n) ports len speed of
           Inl p \<Rightarrow> (Inl p, Suc n)
         | Inr (res, d) \<Rightarrow>
             if \<not> res then (Inr delays, Suc n)
             else delay_runs w ports len speed samples (i + 1) (delays @ d) (Suc n))
      else (Inr delays, n))"
  by pat_completeness auto
termination
  by (relation "measure (\<lambda>(w, ports, len, speed, samples, i, delays, n). nat (samples - i))")
    auto

declare delay_runs.simps [simp del]

text \<open>The loop of lines 205-219 over \<open>total\<close> (here \<open>total_delay\<close>), \<open>min_delay\<close> and \<open>max_delay\<close>.\<close>

fun delay_stats :: "real list \<Rightarrow> real \<times> real \<times> real \<Rightarrow> real \<times> real \<times> real" where
  "delay_stats [] acc = acc"
| "delay_stats (v # vs) (total_delay, min_delay, max_delay) =
     (let total_delay = total_delay + v;
          min_delay = (if min_delay = 0 then v else min_delay);
          max_delay = (if max_delay = 0 then v else max_delay);
          min_delay = (if min_delay > v then v else min_delay);
          max_delay = (if max_delay < v then v else max_delay)
      in delay_stats vs (total_delay, min_delay, max_delay))"

text \<open>The three values printed by lines 223-225; the average is the value returned.\<close>

record delay_report =
  maximum_delay :: real
  average_delay :: float64
  minimum_delay :: real

definition test_for_delay ::
  "world \<Rightarrow> string list \<Rightarrow> int \<Rightarrow> int \<Rightarrow> int \<Rightarrow> nat \<Rightarrow> (panic + delay_report) \<times> nat" where
  "test_for_delay w ports len speed samples n =
     (case delay_runs w ports len speed samples 0 [] n of
        (Inl p, n') \<Rightarrow> (Inl p, n')
      | (Inr delays, n') \<Rightarrow>
          (case delay_stats delays (0, 0, 0) of
             (total_delay, min_delay, max_delay) \<Rightarrow>
               (Inr \<lparr>maximum_delay = max_delay,
                     average_delay = f64_div total_delay (real (length delays)),
                     minimum_delay = min_delay\<rparr>, n')))"

subsection \<open>Observations on one call of the transmission tester\<close>

text \<open>
  The payload and the packet of a call, and what the k-th iteration of the loop meets:
  the answer of its device, the outcome of lines 64-81 on that answer (a panic, or the
  value of \<open>packet_valid\<close>) and the latency sample of line 91.
\<close>

definition payload_of :: "session \<Rightarrow> int \<Rightarrow> string" where
  "payload_of s len = (case randSeq (draws s) len of Inl p \<Rightarrow> [] | Inr data \<Rightarrow> data)"

definition packet_of :: "session \<Rightarrow> int \<Rightarrow> string" where
  "packet_of s len = payload_of s len @ checksum_text (payload_of s len)"

definition loop_verdict ::
  "(nat \<Rightarrow> device) \<Rightarrow> int \<Rightarrow> string \<Rightarrow> string \<Rightarrow> nat \<Rightarrow> string \<Rightarrow> panic + bool" where
  "loop_verdict devs speed packet checksum k port =
     (case check (open_err (devs k port speed packet)) of
        Inl p \<Rightarrow> Inl p
      | Inr _ \<Rightarrow> packet_valid (read_buf (rx (devs k port speed packet))) packet checksum)"

definition answer :: "session \<Rightarrow> string list \<Rightarrow> int \<Rightarrow> int \<Rightarrow> nat \<Rightarrow> response" where
  "answer s ports len speed k = devices s k (ports ! k) speed (packet_of s len)"

definition verdict :: "session \<Rightarrow> string list \<Rightarrow> int \<Rightarrow> int \<Rightarrow> nat \<Rightarrow> panic + bool" where
  "verdict s ports len speed k =
     loop_verdict (devices s) speed (packet_of s len) (checksum_text (payload_of s len)) k (ports ! k)"

definition latency :: "session \<Rightarrow> string list \<Rightarrow> int \<Rightarrow> int \<Rightarrow> nat \<Rightarrow> real" where
  "latency s ports len speed k = real_of_int (elapsed (answer s ports len speed k))"

text \<open>The outcome of the n-th transmission of a search: a panic, or the Boolean returned.\<close>

definition tx_result :: "world \<Rightarrow> string list \<Rightarrow> int \<Rightarrow> nat \<Rightarrow> int \<Rightarrow> panic + bool" where
  "tx_result w ports speed n len =
     (case test_transmission (w n) ports len speed of Inl p \<Rightarrow> Inl p | Inr (res, d) \<Rightarrow> Inr res)"

subsection \<open>Some devices and worlds\<close>

text \<open>A device that opens and returns the packet written to it after \<open>t\<close> nanoseconds.\<close>

definition echo :: "int \<Rightarrow> device" where
  "echo t port speed packet =
     \<lparr>open_err = None, write_err = None, read_err = None, rx = packet, elapsed = t\<rparr>"

text \<open>A device that opens and returns nothing.\<close>

definition mute :: device where
  "mute port speed packet =
     \<lparr>open_err = None, write_err = None, read_err = None, rx = [], elapsed = 7\<rparr>"

text \<open>A device that opens, and whose \<open>Write\<close> and \<open>Read\<close> both return an error.\<close>

definition broken :: device where
  "broken port speed packet =
     \<lparr>open_err = None, write_err = Some ''write: input/output error'',
      read_err = Some ''read: input/output error'', rx = [], elapsed = 7\<rparr>"

text \<open>A device that opens and returns the last 10000 bytes of the packet written to it.\<close>

definition last_bytes :: device where
  "last_bytes port speed packet =
     \<lparr>open_err = None, write_err = None, read_err = None,
      rx = drop (length packet - 10000) packet, elapsed = 5\<rparr>"

definition echo_session :: "int \<Rightarrow> session" where
  "echo_session t = \<lparr>draws = (\<lambda>k. k), devices = (\<lambda>k. echo t)\<rparr>"

definition mute_session :: session where
  "mute_session = \<lparr>draws = (\<lambda>k. k), devices = (\<lambda>k. mute)\<rparr>"

definition broken_session :: session where
  "broken_session = \<lparr>draws = (\<lambda>k. k), devices = (\<lambda>k. broken)\<rparr>"

definition last_bytes_session :: session where
  "last_bytes_session = \<lparr>draws = (\<lambda>k. k), devices = (\<lambda>k. last_bytes)\<rparr>"


text \<open>
  Worlds: every transmission echoed; none; only the first one; only the first three; the
  first one at once.
\<close>

definition echo_world :: world where
  "echo_world n = echo_session 5"

definition mute_world :: world where
  "mute_world n = mute_session"

definition flaky_world :: world where
  "flaky_world n = (if n = 0 then echo_session 5 else mute_session)"

definition three_world :: world where
  "three_world n = (if n < 3 then echo_session 5 else mute_session)"

definition instant_world :: world where
  "instant_world n = (if n = 0 then echo_session 0 else echo_session 5)"

subsection \<open>The checksum in the words of the specification\<close>

text \<open>
  The specification names the checksum: CRC-32 with the reflected polynomial 0xEDB88320
  (CRC-32/ISO-HDLC), that is, a register of 32 one bits, into which each byte is added
  and which is then shifted right eight times, the polynomial being added when the bit
  shifted out is set, and inverted at the end. Its text is read back as a numeral in base
  16 by \<open>hex_value\<close>.
\<close>

definition crc32_bit :: "uint32 \<Rightarrow> uint32" where
  "crc32_bit c = (if bit c 0 then drop_bit 1 c XOR 0xEDB88320 else drop_bit 1 c)"

definition crc32_iso_hdlc :: "string \<Rightarrow> uint32" where
  "crc32_iso_hdlc data =
     NOT (foldl (\<lambda>crc b. (crc32_bit ^^ 8) (crc XOR of_char b)) 0xFFFFFFFF data)"

definition hex_digit_value :: "char \<Rightarrow> nat" where
  "hex_digit_value ch = (if of_char ch < (58::nat) then of_char ch - 48 else of_char ch - 87)"

definition hex_value :: "string \<Rightarrow> nat" where
  "hex_value t = foldl (\<lambda>acc ch. 16 * acc + hex_digit_value ch) 0 t"

section \<open>Properties\<close>

subsection \<open>The checksum text\<close>

lemma formatBits16_acc: "formatBits16 u a = formatBits16 u [] @ a"
proof (induction u arbitrary: a rule: less_induct)
  case (less u)
  show ?case
  proof (cases "16 \<le> u")
    case True
    then have d: "u div 16 < u" by simp
    have "formatBits16 u a = formatBits16 (u div 16) (digits ! (u mod 16) # a)"
      using True by (subst formatBits16.simps) simp
    also have "\<dots> = formatBits16 (u div 16) [] @ digits ! (u mod 16) # a"
      by (rule less.IH [OF d])
    also have "\<dots> = (formatBits16 (u div 16) [] @ [digits ! (u mod 16)]) @ a"
      by simp
    also have "formatBits16 (u div 16) [] @ [digits ! (u mod 16)]
                 = formatBits16 (u div 16) [digits ! (u mod 16)]"
      by (rule less.IH [OF d, symmetric])
    also have "\<dots> = formatBits16 u []"
      using True by (subst (2) formatBits16.simps) simp
    finally show ?thesis .
  next
    case False
    then show ?thesis by (subst (1 2) formatBits16.simps) simp
  qed
qed

lemma FormatUint16_rec:
  "FormatUint16 u = (if 16 \<le> u then FormatUint16 (u div 16) @ [digits ! (u mod 16)] else [digits ! u])"
  unfolding FormatUint16_def
  by (subst formatBits16.simps, subst formatBits16_acc) simp

lemma FormatUint16_length: "u < 16 ^ k \<Longrightarrow> 0 < k \<Longrightarrow> length (FormatUint16 u) \<le> k"
proof (induction k arbitrary: u)
  case 0
  then show ?case by simp
next
  case (Suc k)
  show ?case
  proof (cases "16 \<le> u")
    case True
    then have k: "0 < k" using Suc.prems by (cases k) auto
    have "u div 16 < 16 ^ k" using Suc.prems by (simp add: less_mult_imp_div_less mult.commute)
    from Suc.IH [OF this k] show ?thesis
      by (subst FormatUint16_rec) (simp add: True)
  next
    case False
    then show ?thesis by (subst FormatUint16_rec) simp
  qed
qed

subsection \<open>The loop of the transmission tester\<close>

lemma tx_loop_Cons_pass:
  "loop_verdict devs speed packet checksum k port = Inr True \<Longrightarrow>
   tx_loop devs speed packet checksum k (port # ports) delays sent =
   tx_loop devs speed packet checksum (Suc k) ports
     (delays @ [real_of_int (elapsed (devs k port speed packet))]) (sent @ [(port, packet)])"
  by (auto simp: loop_verdict_def Let_def split: sum.splits)

lemma tx_loop_Cons_fail:
  "loop_verdict devs speed packet checksum k port = Inr False \<Longrightarrow>
   tx_loop devs speed packet checksum k (port # ports) delays sent =
     (Inr (False, delays), sent @ [(port, packet)])"
  by (auto simp: loop_verdict_def Let_def split: sum.splits)

lemma tx_loop_Cons_panic:
  "loop_verdict devs speed packet checksum k port = Inl p \<Longrightarrow>
   fst (tx_loop devs speed packet checksum k (port # ports) delays sent) = Inl p"
  by (auto simp: loop_verdict_def Let_def split: sum.splits)

lemma tx_loop_all_pass:
  "(\<forall>i<length ports. loop_verdict devs speed packet checksum (k + i) (ports ! i) = Inr True) \<Longrightarrow>
   tx_loop devs speed packet checksum k ports delays sent =
     (Inr (True, delays @ map (\<lambda>i. real_of_int (elapsed (devs (k + i) (ports ! i) speed packet))) [0..<length ports]),
      sent @ map (\<lambda>port. (port, packet)) ports)"
proof (induction ports arbitrary: k delays sent)
  case Nil
  then show ?case by simp
next
  case (Cons port ports)
  have h: "loop_verdict devs speed packet checksum k port = Inr True"
    using Cons.prems by fastforce
  have t: "\<forall>i<length ports. loop_verdict devs speed packet checksum (Suc k + i) (ports ! i) = Inr True"
    using Cons.prems by fastforce
  have m: "map (\<lambda>i. real_of_int (elapsed (devs (k + i) ((port # ports) ! i) speed packet))) [0..<length (port # ports)]
         = real_of_int (elapsed (devs k port speed packet)) #
           map (\<lambda>i. real_of_int (elapsed (devs (Suc k + i) (ports ! i) speed packet))) [0..<length ports]"
    by (simp add: upt_conv_Cons map_Suc_upt [symmetric] del: upt_Suc)
  show ?case
    unfolding tx_loop_Cons_pass [OF h] Cons.IH [OF t] m by simp
qed

lemma tx_loop_first_fail:
  "j < length ports \<Longrightarrow>
   (\<forall>i<j. loop_verdict devs speed packet checksum (k + i) (ports ! i) = Inr True) \<Longrightarrow>
   loop_verdict devs speed packet checksum (k + j) (ports ! j) = Inr False \<Longrightarrow>
   tx_loop devs speed packet checksum k ports delays sent =
     (Inr (False, delays @ map (\<lambda>i. real_of_int (elapsed (devs (k + i) (ports ! i) speed packet))) [0..<j]),
      sent @ map (\<lambda>port. (port, packet)) (take (Suc j) ports))"
proof (induction ports arbitrary: k j delays sent)
  case Nil
  then show ?case by simp
next
  case (Cons port ports)
  show ?case
  proof (cases j)
    case 0
    then have "loop_verdict devs speed packet checksum k port = Inr False"
      using Cons.prems(3) by simp
    then show ?thesis
      unfolding 0 by (simp add: tx_loop_Cons_fail del: tx_loop.simps)
  next
    case (Suc j')
    have h: "loop_verdict devs speed packet checksum k port = Inr True"
      using Cons.prems(2) Suc by fastforce
    have a: "j' < length ports" using Cons.prems(1) Suc by simp
    have b: "\<forall>i<j'. loop_verdict devs speed packet checksum (Suc k + i) (ports ! i) = Inr True"
      using Cons.prems(2) Suc by fastforce
    have c: "loop_verdict devs speed packet checksum (Suc k + j') (ports ! j') = Inr False"
      using Cons.prems(3) Suc by simp
    have m: "map (\<lambda>i. real_of_int (elapsed (devs (k + i) ((port # ports) ! i) speed packet))) [0..<Suc j']
         = real_of_int (elapsed (devs k port speed packet)) #
           map (\<lambda>i. real_of_int (elapsed (devs (Suc k + i) (ports ! i) speed packet))) [0..<j']"
      by (simp add: upt_conv_Cons map_Suc_upt [symmetric] del: upt_Suc)
    show ?thesis
      unfolding tx_loop_Cons_pass [OF h] Cons.IH [OF a b c] Suc m by simp
  qed
qed

lemma tx_loop_first_panic:
  "j < length ports \<Longrightarrow>
   (\<forall>i<j. loop_verdict devs speed packet checksum (k + i) (ports ! i) = Inr True) \<Longrightarrow>
   loop_verdict devs speed packet checksum (k + j) (ports ! j) = Inl p \<Longrightarrow>
   fst (tx_loop devs speed packet checksum k ports delays sent) = Inl p"
proof (induction ports arbitrary: k j delays sent)
  case Nil
  then show ?case by simp
next
  case (Cons port ports)
  show ?case
  proof (cases j)
    case 0
    then have "loop_verdict devs speed packet checksum k port = Inl p"
      using Cons.prems(3) by simp
    then show ?thesis
      by (rule tx_loop_Cons_panic)
  next
    case (Suc j')
    have h: "loop_verdict devs speed packet checksum k port = Inr True"
      using Cons.prems(2) Suc by fastforce
    have a: "j' < length ports" using Cons.prems(1) Suc by simp
    have b: "\<forall>i<j'. loop_verdict devs speed packet checksum (Suc k + i) (ports ! i) = Inr True"
      using Cons.prems(2) Suc by fastforce
    have c: "loop_verdict devs speed packet checksum (Suc k + j') (ports ! j') = Inl p"
      using Cons.prems(3) Suc by simp
    show ?thesis
      unfolding tx_loop_Cons_pass [OF h] by (rule Cons.IH [OF a b c])
  qed
qed

subsection \<open>One call of the transmission tester\<close>

lemma randSeq_payload: "0 \<le> len \<Longrightarrow> randSeq (draws s) len = Inr (payload_of s len)"
  by (simp add: payload_of_def randSeq_def)

lemma length_payload_of: "length (payload_of s len) = nat len"
  by (simp add: payload_of_def randSeq_def)

lemma test_transmission_io_loop:
  "0 \<le> len \<Longrightarrow>
   test_transmission_io s ports len speed =
     tx_loop (devices s) speed (packet_of s len) (checksum_text (payload_of s len)) 0 ports [] []"
  by (simp add: test_transmission_io_def randSeq_payload packet_of_def Let_def)

lemma test_transmission_io_negative:
  "len < 0 \<Longrightarrow> test_transmission_io s ports len speed = (Inl MakesliceLenOutOfRange, [])"
  by (simp add: test_transmission_io_def randSeq_def)

lemma io_all_pass:
  assumes "0 \<le> len" and "\<forall>k<length ports. verdict s ports len speed k = Inr True"
  shows "test_transmission_io s ports len speed =
           (Inr (True, map (latency s ports len speed) [0..<length ports]),
            map (\<lambda>port. (port, packet_of s len)) ports)"
  using tx_loop_all_pass [of ports "devices s" speed "packet_of s len"
      "checksum_text (payload_of s len)" 0 "[]" "[]"] assms
  by (simp add: test_transmission_io_loop verdict_def latency_def answer_def)

lemma io_first_fail:
  assumes "0 \<le> len" and "j < length ports"
    and "\<forall>k<j. verdict s ports len speed k = Inr True"
    and "verdict s ports len speed j = Inr False"
  shows "test_transmission_io s ports len speed =
           (Inr (False, map (latency s ports len speed) [0..<j]),
            map (\<lambda>port. (port, packet_of s len)) (take (Suc j) ports))"
  using tx_loop_first_fail [of j ports "devices s" speed "packet_of s len"
      "checksum_text (payload_of s len)" 0 "[]" "[]"] assms
  by (simp add: test_transmission_io_loop verdict_def latency_def answer_def)

lemma io_first_panic:
  assumes "0 \<le> len" and "j < length ports"
    and "\<forall>k<j. verdict s ports len speed k = Inr True"
    and "verdict s ports len speed j = Inl p"
  shows "test_transmission s ports len speed = Inl p"
  using tx_loop_first_panic [of j ports "devices s" speed "packet_of s len"
      "checksum_text (payload_of s len)" 0 p "[]" "[]"] assms
  by (simp add: test_transmission_def test_transmission_io_loop verdict_def)

lemma first_not_passing:
  assumes "\<not> (\<forall>k<length ports. verdict s ports len speed k = Inr True)"
  obtains j where "j < length ports" and "\<forall>k<j. verdict s ports len speed k = Inr True"
    and "verdict s ports len speed j \<noteq> Inr True"
proof -
  define P where "P k \<longleftrightarrow> k < length ports \<and> verdict s ports len speed k \<noteq> Inr True" for k
  from assms obtain k0 where "P k0" unfolding P_def by blast
  define j where "j = (LEAST k. P k)"
  have Pj: "P j" unfolding j_def using \<open>P k0\<close> by (rule LeastI)
  have "\<forall>k<j. verdict s ports len speed k = Inr True"
  proof (intro allI impI)
    fix k assume "k < j"
    then have "\<not> P k" unfolding j_def by (rule not_less_Least)
    moreover have "k < length ports" using \<open>k < j\<close> Pj unfolding P_def by simp
    ultimately show "verdict s ports len speed k = Inr True" unfolding P_def by simp
  qed
  with Pj that show thesis unfolding P_def by blast
qed

lemma returns_true_all_pass:
  assumes "0 \<le> len" and "test_transmission s ports len speed = Inr (True, delays)"
  shows "\<forall>k<length ports. verdict s ports len speed k = Inr True"
proof (rule ccontr)
  assume "\<not> ?thesis"
  then obtain j where j: "j < length ports" "\<forall>k<j. verdict s ports len speed k = Inr True"
    "verdict s ports len speed j \<noteq> Inr True"
    by (rule first_not_passing)
  show False
  proof (cases "verdict s ports len speed j")
    case (Inl p)
    from io_first_panic [OF assms(1) j(1,2) Inl] assms(2) show False by simp
  next
    case (Inr b)
    with j(3) have "verdict s ports len speed j = Inr False" by simp
    from io_first_fail [OF assms(1) j(1,2) this] assms(2) show False
      by (simp add: test_transmission_def)
  qed
qed

subsection \<open>Checksums, buffers and verdicts\<close>

lemma hex_digit_nonzero: "d < 16 \<Longrightarrow> digits ! d \<noteq> CHR 0x00"
proof -
  have "\<forall>d<16. digits ! d \<noteq> CHR 0x00"
    unfolding digits_def by (simp add: All_less_Suc eval_nat_numeral)
  then show "d < 16 \<Longrightarrow> digits ! d \<noteq> CHR 0x00" by blast
qed

lemma FormatUint16_no_zero_byte: "CHR 0x00 \<notin> set (FormatUint16 u)"
proof (induction u rule: less_induct)
  case (less u)
  show ?case
  proof (cases "16 \<le> u")
    case True
    then have "u div 16 < u" by simp
    from less.IH [OF this] show ?thesis
      by (subst FormatUint16_rec) (simp add: True hex_digit_nonzero [THEN not_sym])
  next
    case False
    then show ?thesis by (subst FormatUint16_rec) (simp add: hex_digit_nonzero [THEN not_sym])
  qed
qed

lemma FormatUint16_nonempty: "FormatUint16 u \<noteq> []"
  by (subst FormatUint16_rec) simp

lemma checksum_text_length: "length (checksum_text data) \<le> 8"
proof -
  have "unat (Checksum data (simpleMakeTable 0xEDB88320)) < 16 ^ 8"
    using unsigned_less [of "Checksum data (simpleMakeTable 0xEDB88320)", where 'a = nat]
    by simp
  then show ?thesis
    unfolding checksum_text_def by (rule FormatUint16_length) simp
qed

lemma checksum_text_nonempty: "checksum_text data \<noteq> []"
  by (simp add: checksum_text_def FormatUint16_nonempty)

lemma checksum_text_no_zero_byte: "CHR 0x00 \<notin> set (checksum_text data)"
  by (simp add: checksum_text_def FormatUint16_no_zero_byte)

lemma length_packet_of: "length (packet_of s len) = nat len + length (checksum_text (payload_of s len))"
  by (simp add: packet_of_def length_payload_of)

lemma length_read_buf: "length (read_buf received) = 10000"
  by (simp add: read_buf_def)

lemma HasSuffix_append: "HasSuffix (data @ checksum) checksum"
  by (simp add: HasSuffix_def)

lemma HasSuffix_suffix: "HasSuffix s suff \<longleftrightarrow> suffix suff s"
proof
  assume "HasSuffix s suff"
  then have "s = take (length s - length suff) s @ suff"
    by (metis HasSuffix_def append_take_drop_id)
  then show "suffix suff s" by (metis suffixI)
next
  assume "suffix suff s"
  then obtain pre where "s = pre @ suff" by (auto simp: suffix_def)
  then show "HasSuffix s suff" by (simp add: HasSuffix_def)
qed

lemma echo_passes:
  assumes "length (data @ checksum) \<le> 10000"
  shows "packet_valid (read_buf (data @ checksum)) (data @ checksum) checksum = Inr True"
proof -
  have "take (length (data @ checksum)) (read_buf (data @ checksum)) = data @ checksum"
    using assms by (simp add: read_buf_def)
  then show ?thesis
    using assms by (simp add: packet_valid_def length_read_buf HasSuffix_def)
qed

lemma silence_fails:
  assumes "length packet \<le> 10000" and "checksum \<noteq> []" and "CHR 0x00 \<notin> set checksum"
  shows "packet_valid (read_buf []) packet checksum = Inr False"
proof -
  have "\<not> HasSuffix (take (length packet) (read_buf [])) checksum"
  proof
    assume "HasSuffix (take (length packet) (read_buf [])) checksum"
    then have "suffix checksum (take (length packet) (replicate 10000 (CHR 0x00)))"
      by (simp add: HasSuffix_suffix read_buf_def)
    then have "set checksum \<subseteq> set (take (length packet) (replicate 10000 (CHR 0x00)))"
      by (rule set_mono_suffix)
    also have "\<dots> \<subseteq> {CHR 0x00}"
      using set_take_subset [of "length packet" "replicate 10000 (CHR 0x00)"] by auto
    finally have "set checksum \<subseteq> {CHR 0x00}" .
    with assms(2,3) show False by (cases checksum) auto
  qed
  then show ?thesis using assms(1) by (simp add: packet_valid_def length_read_buf)
qed

lemma too_long_panics:
  "10000 < length packet \<Longrightarrow> packet_valid (read_buf received) packet checksum = Inl SliceBoundsOutOfRange"
  by (simp add: packet_valid_def length_read_buf)

lemma verdict_echo:
  assumes "0 \<le> len" and "len \<le> 9992" and "devices s k = echo t"
  shows "verdict s ports len speed k = Inr True"
proof -
  have "length (packet_of s len) \<le> 10000"
    using assms(1,2) checksum_text_length [of "payload_of s len"] by (simp add: length_packet_of)
  then show ?thesis
    using echo_passes [of "payload_of s len" "checksum_text (payload_of s len)"]
    by (simp add: verdict_def loop_verdict_def assms(3) echo_def check_def packet_of_def)
qed

lemma verdict_mute:
  assumes "0 \<le> len" and "len \<le> 9992" and "devices s k = mute"
  shows "verdict s ports len speed k = Inr False"
proof -
  have "length (packet_of s len) \<le> 10000"
    using assms(1,2) checksum_text_length [of "payload_of s len"] by (simp add: length_packet_of)
  then show ?thesis
    using silence_fails [OF _ checksum_text_nonempty checksum_text_no_zero_byte]
    by (simp add: verdict_def loop_verdict_def assms(3) mute_def check_def)
qed

lemma verdict_broken:
  assumes "0 \<le> len" and "len \<le> 9992" and "devices s k = broken"
  shows "verdict s ports len speed k = Inr False"
proof -
  have "length (packet_of s len) \<le> 10000"
    using assms(1,2) checksum_text_length [of "payload_of s len"] by (simp add: length_packet_of)
  then show ?thesis
    using silence_fails [OF _ checksum_text_nonempty checksum_text_no_zero_byte]
    by (simp add: verdict_def loop_verdict_def assms(3) broken_def check_def)
qed

subsection \<open>The packets written\<close>

lemma tx_loop_writes:
  "\<exists>m. snd (tx_loop devs speed packet checksum k ports delays sent)
         = sent @ map (\<lambda>port. (port, packet)) (take m ports)"
proof (induction ports arbitrary: k delays sent)
  case Nil
  then show ?case by simp
next
  case (Cons port ports)
  show ?case
  proof (cases "loop_verdict devs speed packet checksum k port")
    case (Inl p)
    then have "snd (tx_loop devs speed packet checksum k (port # ports) delays sent) = sent
      \<or> snd (tx_loop devs speed packet checksum k (port # ports) delays sent) = sent @ [(port, packet)]"
      by (auto simp: loop_verdict_def Let_def split: sum.splits)
    then show ?thesis
    proof
      assume "snd (tx_loop devs speed packet checksum k (port # ports) delays sent) = sent"
      then show ?thesis by (intro exI [of _ 0]) simp
    next
      assume "snd (tx_loop devs speed packet checksum k (port # ports) delays sent) = sent @ [(port, packet)]"
      then show ?thesis by (intro exI [of _ 1]) simp
    qed
  next
    case (Inr valid)
    show ?thesis
    proof (cases valid)
      case True
      from Cons.IH [of "Suc k" "delays @ [real_of_int (elapsed (devs k port speed packet))]"
          "sent @ [(port, packet)]"]
      obtain m where "snd (tx_loop devs speed packet checksum (Suc k) ports
          (delays @ [real_of_int (elapsed (devs k port speed packet))]) (sent @ [(port, packet)]))
          = (sent @ [(port, packet)]) @ map (\<lambda>port. (port, packet)) (take m ports)" by blast
      then show ?thesis
        using Inr True by (intro exI [of _ "Suc m"]) (simp add: tx_loop_Cons_pass del: tx_loop.simps)
    next
      case False
      then show ?thesis
        using Inr by (intro exI [of _ 1]) (simp add: tx_loop_Cons_fail del: tx_loop.simps)
    qed
  qed
qed

lemma io_writes:
  "\<exists>m. snd (test_transmission_io s ports len speed)
         = map (\<lambda>port. (port, packet_of s len)) (take m ports)"
proof (cases "0 \<le> len")
  case True
  then show ?thesis
    using tx_loop_writes [of "devices s" speed "packet_of s len" "checksum_text (payload_of s len)"
        0 ports "[]" "[]"]
    by (simp add: test_transmission_io_loop)
next
  case False
  then show ?thesis by (simp add: test_transmission_io_negative)
qed

subsection \<open>Sessions that echo and sessions that stay silent\<close>

lemma echo_session_succeeds:
  assumes "0 \<le> len" and "len \<le> 9992"
  shows "test_transmission (echo_session t) ports len speed
           = Inr (True, map (\<lambda>k. real_of_int t) [0..<length ports])"
proof -
  have "\<forall>k<length ports. verdict (echo_session t) ports len speed k = Inr True"
    using assms by (simp add: verdict_echo echo_session_def)
  from io_all_pass [OF assms(1) this] show ?thesis
    by (simp add: test_transmission_def latency_def answer_def echo_session_def echo_def)
qed

lemma mute_session_fails:
  assumes "0 \<le> len" and "len \<le> 9992" and "ports \<noteq> []"
  shows "test_transmission mute_session ports len speed = Inr (False, [])"
proof -
  have "verdict mute_session ports len speed 0 = Inr False"
    using assms by (simp add: verdict_mute mute_session_def)
  from io_first_fail [OF assms(1), of 0 ports mute_session speed] this assms(3)
  show ?thesis by (simp add: test_transmission_def)
qed

subsection \<open>The divisions of the speed search, and its end\<close>












subsection \<open>One pass of the length search\<close>

lemma tx_result_cases:
  "tx_result w ports speed n len = Inr b \<longleftrightarrow>
     (\<exists>d. test_transmission (w n) ports len speed = Inr (b, d))"
  by (auto simp: tx_result_def split: sum.splits)

lemma length_sweep_step_ok:
  assumes "len < max_length" and "tx_result w ports speed n len = Inr True"
  shows "length_sweep w ports speed max_length len lw n
           = length_sweep w ports speed max_length (len + 1) len (Suc n)"
  using assms by (subst length_sweep.simps) (auto simp: tx_result_def split: sum.splits)

lemma length_sweep_step_fail:
  assumes "len < max_length" and "tx_result w ports speed n len = Inr False"
  shows "length_sweep w ports speed max_length len lw n = (Inr (Returned lw), Suc n)"
  using assms by (subst length_sweep.simps) (auto simp: tx_result_def split: sum.splits)

lemma length_sweep_done:
  assumes "\<not> len < max_length"
  shows "length_sweep w ports speed max_length len lw n = (Inr (Completed lw), n)"
  using assms by (subst length_sweep.simps) simp

lemma length_sweep_all_ok:
  assumes "\<forall>k<nat (max_length - len). tx_result w ports speed (n + k) (len + int k) = Inr True"
  shows "length_sweep w ports speed max_length len lw n
           = (Inr (Completed (if len < max_length then max_length - 1 else lw)),
              n + nat (max_length - len))"
  using assms
proof (induction "nat (max_length - len)" arbitrary: len lw n)
  case 0
  then have "\<not> len < max_length" by simp
  then show ?case using 0 by (simp add: length_sweep_done)
next
  case (Suc m)
  then have lt: "len < max_length" by linarith
  have m: "m = nat (max_length - (len + 1))" using Suc.hyps(2) by linarith
  have first: "tx_result w ports speed n len = Inr True"
    using Suc.prems [rule_format, of 0] Suc.hyps(2) by simp
  have rest: "\<forall>k<nat (max_length - (len + 1)).
               tx_result w ports speed (Suc n + k) (len + 1 + int k) = Inr True"
  proof (intro allI impI)
    fix k assume "k < nat (max_length - (len + 1))"
    then have "Suc k < nat (max_length - len)" by linarith
    from Suc.prems [rule_format, OF this]
    show "tx_result w ports speed (Suc n + k) (len + 1 + int k) = Inr True"
      by (simp add: add.commute add.left_commute)
  qed
  from Suc.hyps(1) [OF m rest, of len]
  have "length_sweep w ports speed max_length (len + 1) len (Suc n)
          = (Inr (Completed (if len + 1 < max_length then max_length - 1 else len)),
             Suc n + nat (max_length - (len + 1)))" .
  moreover have "(if len + 1 < max_length then max_length - 1 else len) = max_length - 1"
    using lt by simp
  moreover have "Suc n + nat (max_length - (len + 1)) = n + nat (max_length - len)"
    using lt by linarith
  ultimately show ?case
    using lt by (simp add: length_sweep_step_ok [OF lt first])
qed

lemma length_sweep_first_fail:
  assumes "i < nat (max_length - len)"
    and "\<forall>k<i. tx_result w ports speed (n + k) (len + int k) = Inr True"
    and "tx_result w ports speed (n + i) (len + int i) = Inr False"
  shows "length_sweep w ports speed max_length len lw n
           = (Inr (Returned (if i = 0 then lw else len + int i - 1)), n + i + 1)"
  using assms
proof (induction i arbitrary: len lw n)
  case 0
  then have "len < max_length" by linarith
  then show ?case using 0 by (simp add: length_sweep_step_fail)
next
  case (Suc i)
  then have lt: "len < max_length" by linarith
  have first: "tx_result w ports speed n len = Inr True"
    using Suc.prems(2) [rule_format, of 0] by simp
  have a: "i < nat (max_length - (len + 1))" using Suc.prems(1) by linarith
  have b: "\<forall>k<i. tx_result w ports speed (Suc n + k) (len + 1 + int k) = Inr True"
  proof (intro allI impI)
    fix k assume "k < i"
    then have "Suc k < Suc i" by simp
    from Suc.prems(2) [rule_format, OF this]
    show "tx_result w ports speed (Suc n + k) (len + 1 + int k) = Inr True"
      by (simp add: add.commute add.left_commute)
  qed
  have c: "tx_result w ports speed (Suc n + i) (len + 1 + int i) = Inr False"
    using Suc.prems(3) by (simp add: add.commute add.left_commute)
  from Suc.IH [OF a b c, of len]
  have "length_sweep w ports speed max_length (len + 1) len (Suc n)
          = (Inr (Returned (if i = 0 then len else len + 1 + int i - 1)), Suc n + i + 1)" .
  then show ?case
    by (simp add: length_sweep_step_ok [OF lt first])
qed

lemma length_sweep_first_panic:
  assumes "i < nat (max_length - len)"
    and "\<forall>k<i. tx_result w ports speed (n + k) (len + int k) = Inr True"
    and "tx_result w ports speed (n + i) (len + int i) = Inl p"
  shows "length_sweep w ports speed max_length len lw n = (Inl p, n + i + 1)"
  using assms
proof (induction i arbitrary: len lw n)
  case 0
  then have "len < max_length" by linarith
  then show ?case using 0
    by (subst length_sweep.simps) (auto simp: tx_result_def split: sum.splits)
next
  case (Suc i)
  then have lt: "len < max_length" by linarith
  have first: "tx_result w ports speed n len = Inr True"
    using Suc.prems(2) [rule_format, of 0] by simp
  have a: "i < nat (max_length - (len + 1))" using Suc.prems(1) by linarith
  have b: "\<forall>k<i. tx_result w ports speed (Suc n + k) (len + 1 + int k) = Inr True"
  proof (intro allI impI)
    fix k assume "k < i"
    then have "Suc k < Suc i" by simp
    from Suc.prems(2) [rule_format, OF this]
    show "tx_result w ports speed (Suc n + k) (len + 1 + int k) = Inr True"
      by (simp add: add.commute add.left_commute)
  qed
  have c: "tx_result w ports speed (Suc n + i) (len + 1 + int i) = Inl p"
    using Suc.prems(3) by (simp add: add.commute add.left_commute)
  from Suc.IH [OF a b c, of len]
  show ?case
    by (simp add: length_sweep_step_ok [OF lt first])
qed

subsection \<open>The table-driven checksum is the bitwise one\<close>

lemma crc_shift_bit: "crc_shift poly c = (if bit c 0 then drop_bit 1 c XOR poly else drop_bit 1 c)"
  by (simp add: crc_shift_def and_one_eq bit_0 mod_2_eq_odd)

lemma crc_shift_xor: "crc_shift poly (a XOR b) = crc_shift poly a XOR crc_shift poly b"
proof -
  let ?a = "drop_bit 1 a" and ?b = "drop_bit 1 b"
  have d: "drop_bit 1 (a XOR b) = ?a XOR ?b"
    by (rule drop_bit_xor)
  have b0: "bit (a XOR b) 0 \<longleftrightarrow> bit a 0 \<noteq> bit b 0"
    by (simp add: bit_xor_iff)
  have x1: "?a XOR ?b = (?a XOR poly) XOR (?b XOR poly)"
    by (rule bit_eqI) (auto simp: bit_xor_iff)
  have x2: "(?a XOR ?b) XOR poly = (?a XOR poly) XOR ?b"
    by (rule bit_eqI) (auto simp: bit_xor_iff)
  have x3: "(?a XOR ?b) XOR poly = ?a XOR (?b XOR poly)"
    by (rule bit_eqI) (auto simp: bit_xor_iff)
  show ?thesis
  proof (cases "bit a 0")
    case a: True
    show ?thesis
    proof (cases "bit b 0")
      case True
      with a have "\<not> bit (a XOR b) 0" using b0 by simp
      then show ?thesis using a True x1 by (simp only: crc_shift_bit d if_True if_False)
    next
      case False
      with a have "bit (a XOR b) 0" using b0 by simp
      then show ?thesis using a False x2 by (simp only: crc_shift_bit d if_True if_False)
    qed
  next
    case a: False
    show ?thesis
    proof (cases "bit b 0")
      case True
      with a have "bit (a XOR b) 0" using b0 by simp
      then show ?thesis using a True x3 by (simp only: crc_shift_bit d if_True if_False)
    next
      case False
      with a have "\<not> bit (a XOR b) 0" using b0 by simp
      then show ?thesis using a False by (simp only: crc_shift_bit d if_True if_False)
    qed
  qed
qed

lemma crc_shift_funpow_xor:
  "(crc_shift poly ^^ k) (a XOR b) = (crc_shift poly ^^ k) a XOR (crc_shift poly ^^ k) b"
  by (induction k) (simp_all add: crc_shift_xor)

lemma crc_shift_funpow_high:
  assumes "\<forall>j<8. \<not> bit c j" and "k \<le> 8"
  shows "(crc_shift poly ^^ k) c = drop_bit k c"
  using assms(2)
proof (induction k)
  case 0
  then show ?case by simp
next
  case (Suc k)
  then have ih: "(crc_shift poly ^^ k) c = drop_bit k c" by simp
  have nb: "\<not> bit (drop_bit k c) 0"
    using assms(1) Suc.prems by (simp add: bit_drop_bit_eq)
  have "(crc_shift poly ^^ Suc k) c = crc_shift poly ((crc_shift poly ^^ k) c)"
    by simp
  also have "\<dots> = crc_shift poly (drop_bit k c)"
    by (simp only: ih)
  also have "\<dots> = drop_bit 1 (drop_bit k c)"
    using nb by (simp only: crc_shift_bit if_False)
  also have "\<dots> = drop_bit (Suc k) c"
    by simp
  finally show ?case .
qed

lemma low_byte_bits: "bit (ucast (b :: byte) :: uint32) n \<longleftrightarrow> n < 8 \<and> bit b n"
  by (auto simp: bit_simps dest: bit_imp_le_length)

lemma split_low_byte:
  "c XOR ucast (v :: byte) = ucast ((ucast c :: byte) XOR v) XOR push_bit 8 (drop_bit 8 c :: uint32)"
  by (rule bit_eqI) (auto simp: bit_simps low_byte_bits dest: bit_imp_le_length)

lemma high_part_bits: "\<forall>j<8. \<not> bit (push_bit 8 (drop_bit 8 c :: uint32)) j"
  by (simp add: bit_simps)

lemma drop_high_part: "drop_bit 8 (push_bit 8 (drop_bit 8 c :: uint32)) = drop_bit 8 c"
  by (rule bit_eqI) (auto simp: bit_simps dest: bit_imp_le_length)

lemma table_step:
  "simpleMakeTable poly (ucast c XOR v) XOR drop_bit 8 c = (crc_shift poly ^^ 8) (c XOR ucast v)"
proof -
  have "(crc_shift poly ^^ 8) (c XOR ucast v)
          = (crc_shift poly ^^ 8) (ucast ((ucast c :: byte) XOR v))
            XOR (crc_shift poly ^^ 8) (push_bit 8 (drop_bit 8 c))"
    by (subst split_low_byte) (rule crc_shift_funpow_xor)
  also have "(crc_shift poly ^^ 8) (push_bit 8 (drop_bit 8 c)) = drop_bit 8 c"
    using crc_shift_funpow_high [where c = "push_bit 8 (drop_bit 8 c)" and k = 8 and poly = poly]
      high_part_bits [of c]
    by (simp add: drop_high_part)
  finally show ?thesis by (simp add: simpleMakeTable_def)
qed

lemma of_char_ucast: "(of_char ch :: uint32) = ucast (of_char ch :: byte)"
proof -
  have "ucast (of_char ch :: byte) = (ucast (of_nat (of_char ch) :: byte) :: uint32)"
    by (simp only: of_nat_of_char)
  also have "\<dots> = of_nat (take_bit 8 (of_char ch :: nat))"
    by (simp add: unsigned_of_nat)
  also have "take_bit 8 (of_char ch :: nat) = of_char ch"
    by (simp add: take_bit_eq_mod)
  finally show ?thesis by (simp add: of_nat_of_char)
qed

lemma update_step:
  "simpleMakeTable poly (ucast c XOR of_char ch) XOR drop_bit 8 c
     = (crc_shift poly ^^ 8) (c XOR of_char ch)"
  using table_step [of poly c "of_char ch"] by (simp add: of_char_ucast [symmetric])

lemma Checksum_bitwise:
  "Checksum data (simpleMakeTable 0xEDB88320) = crc32_iso_hdlc data"
proof -
  have s: "crc_shift 0xEDB88320 = crc32_bit"
    by (rule ext) (simp only: crc_shift_bit crc32_bit_def)
  have "foldl (\<lambda>c v. simpleMakeTable 0xEDB88320 (ucast c XOR of_char v) XOR drop_bit 8 c) x data
      = foldl (\<lambda>crc b. (crc_shift 0xEDB88320 ^^ 8) (crc XOR of_char b)) x data" for x
    by (simp only: update_step)
  moreover have "(0xFFFFFFFF :: uint32) = NOT 0" by simp
  ultimately show ?thesis
    by (simp only: Checksum_def simpleUpdate_def crc32_iso_hdlc_def s)
qed

text \<open>
  The check value of CRC-32/ISO-HDLC, and a checksum whose text has seven digits.
\<close>

lemma funpow_8: "(f ^^ 8) x = f (f (f (f (f (f (f (f x)))))))"
  by (simp add: eval_nat_numeral)

lemma crc32_check_value: "crc32_iso_hdlc ''123456789'' = 0xCBF43926"
  apply (simp only: crc32_iso_hdlc_def foldl.simps funpow_8)
  apply (simp add: crc32_bit_def)
  done

lemma crc32_of_c: "crc32_iso_hdlc ''c'' = 0x6B9DF6F"
  apply (simp only: crc32_iso_hdlc_def foldl.simps funpow_8)
  apply (simp add: crc32_bit_def)
  done

lemma FormatUint16_c: "FormatUint16 0x6B9DF6F = ''6b9df6f''"
  by (simp add: FormatUint16_rec digits_def)

lemma checksum_text_c: "checksum_text ''c'' = ''6b9df6f''"
  by (simp add: checksum_text_def Checksum_bitwise crc32_of_c FormatUint16_c)

lemma checksum_text_check: "checksum_text ''123456789'' = ''cbf43926''"
  by (simp add: checksum_text_def Checksum_bitwise crc32_check_value FormatUint16_rec digits_def)

subsection \<open>The checksum text is a numeral in base 16\<close>

lemma hex_digit_value_digits: "d < 16 \<Longrightarrow> hex_digit_value (digits ! d) = d"
proof -
  have "\<forall>d<16. hex_digit_value (digits ! d) = d"
    unfolding digits_def hex_digit_value_def by (simp add: All_less_Suc eval_nat_numeral)
  then show "d < 16 \<Longrightarrow> hex_digit_value (digits ! d) = d" by blast
qed

lemma hex_digit_in_alphabet: "d < 16 \<Longrightarrow> digits ! d \<in> set ''0123456789abcdef''"
proof -
  have "\<forall>d<16. digits ! d \<in> set ''0123456789abcdef''"
    unfolding digits_def by (simp add: All_less_Suc eval_nat_numeral)
  then show "d < 16 \<Longrightarrow> digits ! d \<in> set ''0123456789abcdef''" by blast
qed

lemma hex_digit_zero: "d < 16 \<Longrightarrow> digits ! d = CHR ''0'' \<Longrightarrow> d = 0"
proof -
  have "\<forall>d<16. digits ! d = CHR ''0'' \<longrightarrow> d = 0"
    unfolding digits_def by (simp add: All_less_Suc eval_nat_numeral)
  then show "d < 16 \<Longrightarrow> digits ! d = CHR ''0'' \<Longrightarrow> d = 0" by blast
qed

lemma hex_value_snoc: "hex_value (t @ [ch]) = 16 * hex_value t + hex_digit_value ch"
  by (simp add: hex_value_def)

lemma FormatUint16_zero: "FormatUint16 0 = ''0''"
  by (subst FormatUint16_rec) (simp add: digits_def)

lemma hex_value_FormatUint16: "hex_value (FormatUint16 u) = u"
proof (induction u rule: less_induct)
  case (less u)
  show ?case
  proof (cases "16 \<le> u")
    case True
    then have "u div 16 < u" by simp
    from less.IH [OF this] show ?thesis
      by (subst FormatUint16_rec) (simp add: True hex_value_snoc hex_digit_value_digits)
  next
    case False
    then show ?thesis
      using hex_value_snoc [of "[]" "digits ! u"]
      by (subst FormatUint16_rec) (simp add: hex_digit_value_digits hex_value_def)
  qed
qed

lemma FormatUint16_alphabet: "set (FormatUint16 u) \<subseteq> set ''0123456789abcdef''"
proof (induction u rule: less_induct)
  case (less u)
  show ?case
  proof (cases "16 \<le> u")
    case True
    then have "u div 16 < u" by simp
    from less.IH [OF this] hex_digit_in_alphabet [of "u mod 16"] show ?thesis
      by (subst FormatUint16_rec) (simp add: True)
  next
    case False
    then show ?thesis
      using hex_digit_in_alphabet [of u] by (subst FormatUint16_rec) simp
  qed
qed

lemma FormatUint16_leading_zero: "hd (FormatUint16 u) = CHR ''0'' \<Longrightarrow> u = 0"
proof (induction u rule: less_induct)
  case (less u)
  show ?case
  proof (cases "16 \<le> u")
    case True
    then have d: "u div 16 < u" by simp
    have "hd (FormatUint16 u) = hd (FormatUint16 (u div 16))"
      by (subst FormatUint16_rec) (simp add: True FormatUint16_nonempty)
    with less.prems less.IH [OF d] have "u div 16 = 0" by simp
    with True show ?thesis by simp
  next
    case False
    then have "hd (FormatUint16 u) = digits ! u"
      by (subst FormatUint16_rec) simp
    with less.prems False show ?thesis
      using hex_digit_zero [of u] by simp
  qed
qed

lemma packet_valid_suffix:
  "packet_valid buf packet checksum = Inr True \<longleftrightarrow>
     length packet \<le> length buf \<and> suffix checksum (take (length packet) buf)"
  by (auto simp: packet_valid_def HasSuffix_suffix)

lemma verdict_passes_iff:
  "verdict s ports len speed k = Inr True \<longleftrightarrow>
     open_err (answer s ports len speed k) = None
     \<and> length (packet_of s len) \<le> 10000
     \<and> suffix (checksum_text (payload_of s len))
          (take (length (packet_of s len)) (read_buf (rx (answer s ports len speed k))))"
  by (auto simp: verdict_def loop_verdict_def answer_def check_def packet_valid_suffix
      length_read_buf split: option.splits)

lemma long_packet_panics:
  assumes "0 \<le> len" and "10000 < length (packet_of s len)" and "ports \<noteq> []"
    and "open_err (answer s ports len speed 0) = None"
  shows "test_transmission s ports len speed = Inl SliceBoundsOutOfRange"
proof -
  have "verdict s ports len speed 0 = Inl SliceBoundsOutOfRange"
    using assms(2,4) by (simp add: verdict_def loop_verdict_def answer_def check_def too_long_panics)
  from io_first_panic [OF assms(1) _ _ this] assms(3) show ?thesis by simp
qed

lemma checksum_text_empty: "checksum_text [] = ''0''"
  by (simp add: checksum_text_def Checksum_def simpleUpdate_def FormatUint16_zero)

lemma payload_echo_0: "payload_of (echo_session 5) 0 = []"
  by (simp add: payload_of_def randSeq_def)

lemma writes_echo_0:
  "snd (test_transmission_io (echo_session 5) [''COM15''] 0 9600) = [(''COM15'', ''0'')]"
proof -
  have "\<forall>k<length [''COM15'']. verdict (echo_session 5) [''COM15''] 0 9600 k = Inr True"
    by (simp add: verdict_echo echo_session_def)
  from io_all_pass [OF _ this] show ?thesis
    by (simp add: packet_of_def payload_echo_0 checksum_text_empty)
qed

subsection \<open>The errors of Write and Read are never read\<close>

lemma tx_loop_ignores_io_errors:
  assumes "\<And>k port. open_err (devs' k port speed packet) = open_err (devs k port speed packet)"
    and "\<And>k port. rx (devs' k port speed packet) = rx (devs k port speed packet)"
    and "\<And>k port. elapsed (devs' k port speed packet) = elapsed (devs k port speed packet)"
  shows "tx_loop devs' speed packet checksum k ports delays sent
           = tx_loop devs speed packet checksum k ports delays sent"
proof (induction ports arbitrary: k delays sent)
  case Nil
  then show ?case by simp
next
  case (Cons port ports)
  then show ?case
    by (simp add: Let_def assms split: sum.splits)
qed

lemma test_transmission_ignores_io_errors:
  "test_transmission
     (s\<lparr>devices := \<lambda>k port speed packet. (devices s k port speed packet)\<lparr>write_err := we, read_err := re\<rparr>\<rparr>)
     ports len speed
   = test_transmission s ports len speed"
proof -
  let ?devs = "\<lambda>k port speed packet. (devices s k port speed packet)\<lparr>write_err := we, read_err := re\<rparr>"
  have "tx_loop ?devs speed packet checksum 0 ports [] []
          = tx_loop (devices s) speed packet checksum 0 ports [] []" for packet checksum
    by (rule tx_loop_ignores_io_errors) simp_all
  then show ?thesis
    by (simp add: test_transmission_def test_transmission_io_def Let_def split: sum.splits)
qed

subsection \<open>The mean of positive samples lies between the minimum and the maximum\<close>

lemma delay_stats_positive:
  assumes "\<forall>v\<in>set vs. 0 < v" and "0 < mn" and "0 < mx"
  shows "delay_stats vs (t, mn, mx) = (t + sum_list vs, fold min vs mn, fold max vs mx)"
  using assms
proof (induction vs arbitrary: t mn mx)
  case Nil
  then show ?case by simp
next
  case (Cons v vs)
  have v: "0 < v" using Cons.prems(1) by simp
  have step: "delay_stats (v # vs) (t, mn, mx) = delay_stats vs (t + v, min v mn, max v mx)"
    using Cons.prems(2,3) by (simp add: Let_def min_def max_def)
  have "delay_stats vs (t + v, min v mn, max v mx)
          = (t + v + sum_list vs, fold min vs (min v mn), fold max vs (max v mx))"
    using Cons.prems v by (intro Cons.IH) simp_all
  then show ?case unfolding step by (simp add: add.assoc)
qed

lemma fold_min_le: "fold min vs (m::real) \<le> m" "\<forall>v\<in>set vs. fold min vs m \<le> v"
proof -
  have "fold min vs m \<le> m \<and> (\<forall>v\<in>set vs. fold min vs m \<le> v)"
  proof (induction vs arbitrary: m)
    case Nil
    then show ?case by simp
  next
    case (Cons a vs)
    from Cons.IH [of "min a m"] show ?case by (auto simp: min_le_iff_disj)
  qed
  then show "fold min vs m \<le> m" "\<forall>v\<in>set vs. fold min vs m \<le> v" by simp_all
qed

lemma fold_max_ge: "(m::real) \<le> fold max vs m" "\<forall>v\<in>set vs. v \<le> fold max vs m"
proof -
  have "m \<le> fold max vs m \<and> (\<forall>v\<in>set vs. v \<le> fold max vs m)"
  proof (induction vs arbitrary: m)
    case Nil
    then show ?case by simp
  next
    case (Cons a vs)
    from Cons.IH [of "max a m"] show ?case by (auto simp: le_max_iff_disj)
  qed
  then show "m \<le> fold max vs m" "\<forall>v\<in>set vs. v \<le> fold max vs m" by simp_all
qed

lemma sum_list_bounds:
  assumes "\<forall>v\<in>set vs. lo \<le> v \<and> v \<le> (hi::real)"
  shows "real (length vs) * lo \<le> sum_list vs \<and> sum_list vs \<le> real (length vs) * hi"
  using assms by (induction vs) (auto simp: algebra_simps)

lemma positive_samples_mean_between:
  assumes "delays \<noteq> []" and "\<forall>v\<in>set delays. 0 < v"
    and "delay_stats delays (0, 0, 0) = (total_delay, min_delay, max_delay)"
  shows "min_delay \<le> total_delay / real (length delays)"
    and "total_delay / real (length delays) \<le> max_delay"
proof -
  obtain v vs where d: "delays = v # vs" using assms(1) by (cases delays) auto
  have v: "0 < v" and vs: "\<forall>x\<in>set vs. 0 < x" using assms(2) d by simp_all
  have "delay_stats delays (0, 0, 0) = delay_stats vs (v, v, v)"
    by (simp add: d Let_def)
  also have "\<dots> = (v + sum_list vs, fold min vs v, fold max vs v)"
    by (rule delay_stats_positive [OF vs v v])
  finally have r: "total_delay = sum_list delays" "min_delay = fold min vs v"
    "max_delay = fold max vs v"
    using assms(3) d by simp_all
  have "\<forall>x\<in>set delays. min_delay \<le> x \<and> x \<le> max_delay"
    using fold_min_le [of vs v] fold_max_ge [where m = v and vs = vs] r d by auto
  from sum_list_bounds [OF this] r(1)
  have b: "real (length delays) * min_delay \<le> total_delay"
    "total_delay \<le> real (length delays) * max_delay" by simp_all
  have n: "0 < real (length delays)" using assms(1) by simp
  show "min_delay \<le> total_delay / real (length delays)"
    using b(1) n by (simp add: pos_le_divide_eq mult.commute)
  show "total_delay / real (length delays) \<le> max_delay"
    using b(2) n by (simp add: pos_divide_le_eq mult.commute)
qed

subsection \<open>The packet, and the judgement of a packet that fits the buffer\<close>

lemma packet_format:
  "(\<forall>entry \<in> set (snd (test_transmission_io s ports len speed)).
      snd entry = payload_of s len @ checksum_text (payload_of s len))
   \<and> hex_value (checksum_text data) = unat (crc32_iso_hdlc data)
   \<and> set (checksum_text data) \<subseteq> set ''0123456789abcdef''
   \<and> checksum_text data \<noteq> []
   \<and> (hd (checksum_text data) = CHR ''0'' \<longrightarrow> checksum_text data = ''0'')"
proof (intro conjI)
  obtain m where "snd (test_transmission_io s ports len speed)
         = map (\<lambda>port. (port, packet_of s len)) (take m ports)"
    using io_writes by blast
  then show "\<forall>entry \<in> set (snd (test_transmission_io s ports len speed)).
      snd entry = payload_of s len @ checksum_text (payload_of s len)"
    by (auto simp: packet_of_def)
  show "hex_value (checksum_text data) = unat (crc32_iso_hdlc data)"
    by (simp add: checksum_text_def hex_value_FormatUint16 Checksum_bitwise)
  show "set (checksum_text data) \<subseteq> set ''0123456789abcdef''"
    unfolding checksum_text_def by (rule FormatUint16_alphabet)
  show "checksum_text data \<noteq> []"
    by (rule checksum_text_nonempty)
  show "hd (checksum_text data) = CHR ''0'' \<longrightarrow> checksum_text data = ''0''"
  proof
    assume "hd (checksum_text data) = CHR ''0''"
    then have "unat (Checksum data (simpleMakeTable 0xEDB88320)) = 0"
      unfolding checksum_text_def by (rule FormatUint16_leading_zero)
    then show "checksum_text data = ''0''"
      by (simp add: checksum_text_def FormatUint16_zero)
  qed
qed

lemma fitting_packet_judged:
  assumes "0 \<le> len" and "length (packet_of s len) \<le> 10000"
    and "open_err (answer s [port] len speed 0) = None"
  shows "(\<exists>delays. test_transmission s [port] len speed = Inr (True, delays)) \<longleftrightarrow>
           suffix (checksum_text (payload_of s len))
             (take (length (packet_of s len)) (read_buf (rx (answer s [port] len speed 0))))"
proof -
  have v: "verdict s [port] len speed 0 = Inr True \<longleftrightarrow>
           suffix (checksum_text (payload_of s len))
             (take (length (packet_of s len)) (read_buf (rx (answer s [port] len speed 0))))"
    using assms(2,3) by (simp add: verdict_passes_iff)
  have "(\<exists>delays. test_transmission s [port] len speed = Inr (True, delays)) \<longleftrightarrow>
          (\<forall>k<length [port]. verdict s [port] len speed k = Inr True)"
    using returns_true_all_pass [OF assms(1), of s "[port]" speed]
      io_all_pass [OF assms(1), of "[port]" s speed]
    by (auto simp: test_transmission_def)
  then show ?thesis using v by simp
qed

lemma last_bytes_buffer:
  assumes "10000 \<le> length (data @ checksum)" and "length checksum \<le> 10000"
  shows "suffix checksum
           (take (length (data @ checksum))
              (read_buf (drop (length (data @ checksum) - 10000) (data @ checksum))))"
proof -
  let ?p = "data @ checksum"
  let ?r = "drop (length ?p - 10000) ?p"
  have l: "length ?r = 10000" using assms(1) by simp
  have "read_buf ?r = ?r" using l by (simp add: read_buf_def)
  moreover have "take (length ?p) ?r = ?r" by simp
  moreover have "suffix checksum ?r"
  proof (rule suffix_length_suffix)
    show "suffix checksum ?p" by (simp add: suffix_def)
    show "suffix ?r ?p" by (rule suffix_drop)
    show "length checksum \<le> length ?r" using l assms(2) by simp
  qed
  ultimately show ?thesis by simp
qed

subsection \<open>The speed sweep wraps around\<close>

lemma three_world_ok: "n < 3 \<Longrightarrow> test_transmission (three_world n) [''COM15''] 20 speed = Inr (True, [5])"
  using echo_session_succeeds [of 20 5 "[''COM15'']" speed] by (simp add: three_world_def)

lemma three_world_fail: "\<not> n < 3 \<Longrightarrow> test_transmission (three_world n) [''COM15''] 20 speed = Inr (False, [])"
  using mute_session_fails [of 20 "[''COM15'']" speed] by (simp add: three_world_def)

lemma sweep_wraps_around:
  "test_for_speed three_world [''COM15''] 20 2 9223372036854775807 0
     = Some (Inr (- 9223372036854775808), 4)"
proof -
  have g: "go_div 9223372036854775807 2 = Inr 4611686018427387903"
    by (simp add: go_div_def wrap64_def)
  have s: "speed_sweep three_world [''COM15''] 20 9223372036854775807 2 2 0 0
             = Some (Inr (- 4611686018427387905, - 9223372036854775808), 4)"
    apply (subst speed_sweep.simps, simp add: three_world_ok g wrap64_def)
    apply (subst speed_sweep.simps, simp add: three_world_ok g wrap64_def)
    apply (subst speed_sweep.simps, simp add: three_world_ok g wrap64_def)
    apply (subst speed_sweep.simps, simp add: three_world_fail)
    done
  have g2: "go_div 9223372036854775807 (- 4611686018427387905) = Inr (- 1)"
    by (simp add: go_div_def wrap64_def)
  show ?thesis
    by (simp add: test_for_speed_def numeral_2_eq_2 g s g2)
qed

section \<open>The claims\<close>

subsection \<open>Transmission tester\<close>



text \<open>
  C2. An error returned by \<open>Write\<close> or \<open>Read\<close> does not panic: with a device that opens
  and fails both calls, \<open>test_transmission\<close> returns failure as for a mismatch.
\<close>

theorem write_read_errors_do_not_panic:
  "test_transmission broken_session [''COM15''] 20 9600 = Inr (False, [])"
proof -
  have v: "verdict broken_session [''COM15''] 20 9600 0 = Inr False"
    by (rule verdict_broken) (simp_all add: broken_session_def)
  from io_first_fail [of 20 0 "[''COM15'']" broken_session 9600] v
  show ?thesis by (simp add: test_transmission_def)
qed

text \<open>
  C3. A payload of 10000 bytes makes a packet longer than the buffer. On a port that
  opens and returns the last 10000 bytes of the packet, the buffer, cut at the packet's
  length, ends with the checksum text, and yet it is not judged valid: the slice of line
  81 is out of range and the call panics.
\<close>

theorem long_packet_is_not_judged:
  "suffix (checksum_text (payload_of last_bytes_session 10000))
     (take (length (packet_of last_bytes_session 10000))
        (read_buf (rx (answer last_bytes_session [''COM15''] 10000 9600 0))))
   \<and> test_transmission last_bytes_session [''COM15''] 10000 9600 = Inl SliceBoundsOutOfRange"
proof
  have n: "10000 < length (packet_of last_bytes_session 10000)"
    using checksum_text_nonempty [of "payload_of last_bytes_session 10000"]
    by (simp add: length_packet_of)
  have "10000 \<le> length (payload_of last_bytes_session 10000
                          @ checksum_text (payload_of last_bytes_session 10000))"
    using n by (simp add: packet_of_def)
  moreover have "length (checksum_text (payload_of last_bytes_session 10000)) \<le> 10000"
    using checksum_text_length [of "payload_of last_bytes_session 10000"] by simp
  ultimately show "suffix (checksum_text (payload_of last_bytes_session 10000))
     (take (length (packet_of last_bytes_session 10000))
        (read_buf (rx (answer last_bytes_session [''COM15''] 10000 9600 0))))"
    using last_bytes_buffer [of "payload_of last_bytes_session 10000"
        "checksum_text (payload_of last_bytes_session 10000)"]
    by (simp add: answer_def last_bytes_session_def last_bytes_def packet_of_def)
  show "test_transmission last_bytes_session [''COM15''] 10000 9600 = Inl SliceBoundsOutOfRange"
    using n by (intro long_packet_panics)
      (simp_all add: answer_def last_bytes_session_def last_bytes_def)
qed

text \<open>
  C6. Within one call the payload is generated once, before the loop: every packet
  written, to whichever device, is the packet of the call.
\<close>

theorem one_packet_per_call:
  "map snd (snd (test_transmission_io s ports len speed))
     = replicate (length (snd (test_transmission_io s ports len speed))) (packet_of s len)"
proof -
  obtain m where "snd (test_transmission_io s ports len speed)
         = map (\<lambda>port. (port, packet_of s len)) (take m ports)"
    using io_writes by blast
  then show ?thesis by (simp add: comp_def map_replicate_const)
qed

lemma payload_echo_4: "payload_of (echo_session 5) 4 = ''abcd''"
  by (simp add: payload_of_def randSeq_def echo_session_def Intn_def letters_def
      upt_conv_Cons)

text \<open>
  With two devices and a generator whose draws all differ, both devices are sent the
  packet made of the first four draws.
\<close>

theorem fresh_payload_per_device_counterexample:
  "snd (test_transmission_io (echo_session 5) [''COM15'', ''COM16''] 4 9600)
     = [(''COM15'', ''abcd'' @ checksum_text ''abcd''), (''COM16'', ''abcd'' @ checksum_text ''abcd'')]"
proof -
  have "\<forall>k<length [''COM15'', ''COM16'']. verdict (echo_session 5) [''COM15'', ''COM16''] 4 9600 k = Inr True"
    by (simp add: verdict_echo echo_session_def)
  from io_all_pass [OF _ this] show ?thesis
    by (simp add: packet_of_def payload_echo_4)
qed

subsection \<open>Speed search\<close>

lemma go_div_9601: "go_div 9601 9600 = Inr 1"
  by (simp add: go_div_def wrap64_def)

lemma echo_world_20:
  "test_transmission (echo_world n) [''COM15''] 20 speed = Inr (True, [5])"
  using echo_session_succeeds [of 20 5 "[''COM15'']" speed] by (simp add: echo_world_def)

lemma speed_sweep_echo_9600:
  "speed_sweep echo_world [''COM15''] 20 9601 9600 9600 lw n = Some (Inr (9600, 9600), Suc n)"
  by (subst speed_sweep.simps, subst speed_sweep.simps)
    (simp add: echo_world_20 go_div_9601 wrap64_def)



text \<open>
  C4. A first sweep in which every transmission succeeds is followed by a second pass:
  with one speed to test, 9600, and a link that echoes every packet, the speed is
  tested twice.
\<close>

theorem second_pass_after_clean_sweep:
  "test_for_speed echo_world [''COM15''] 20 9600 9601 0 = Some (Inr 9600, 2)"
  by (simp add: test_for_speed_def numeral_2_eq_2 go_div_9601 speed_sweep_echo_9600)

text \<open>
  C5. With \<open>min_speed = max_speed = 9600\<close> the inner loop, whose condition is
  \<open>speed < max_speed\<close>, tests nothing: the search returns 0 without a transmission.
\<close>

theorem equal_bounds_return_zero:
  "test_for_speed w ports len 9600 9600 n = Some (Inr 0, n)"
proof -
  have g: "go_div 9600 9600 = Inr 1" by (simp add: go_div_def wrap64_def)
  have s: "speed_sweep w ports len 9600 9600 9600 lw k = Some (Inr (9600, lw), k)" for lw k
    by (subst speed_sweep.simps) simp
  show ?thesis by (simp add: test_for_speed_def numeral_2_eq_2 g s)
qed

text \<open>
  On two ports that echo, a transmission of 16 bytes at 9600 verifies, and the search
  between 9600 and 9600 returns 0, not 9600.
\<close>

theorem equal_bounds_counterexample:
  "test_transmission (echo_world 0) [''/dev/ttyUSB0'', ''/dev/ttyUSB1''] 16 9600 = Inr (True, [5, 5])
   \<and> test_for_speed echo_world [''/dev/ttyUSB0'', ''/dev/ttyUSB1''] 16 9600 9600 0 = Some (Inr 0, 0)"
proof -
  have g: "go_div 9600 9600 = Inr 1" by (simp add: go_div_def wrap64_def)
  have s: "speed_sweep w ports len 9600 9600 9600 lw k = Some (Inr (9600, lw), k)"
    for w ports len lw k
    by (subst speed_sweep.simps) simp
  have "test_for_speed echo_world [''/dev/ttyUSB0'', ''/dev/ttyUSB1''] 16 9600 9600 0 = Some (Inr 0, 0)"
    by (simp add: test_for_speed_def numeral_2_eq_2 g s)
  moreover have "test_transmission (echo_world 0) [''/dev/ttyUSB0'', ''/dev/ttyUSB1''] 16 9600 = Inr (True, [5, 5])"
    using echo_session_succeeds [of 16 5 "[''/dev/ttyUSB0'', ''/dev/ttyUSB1'']" 9600]
    by (simp add: echo_world_def upt_conv_Cons)
  ultimately show ?thesis by simp
qed

subsection \<open>Length search\<close>

lemma flaky_0: "tx_result flaky_world [''COM15''] 9600 0 5 = Inr True"
  using echo_session_succeeds [of 5 5 "[''COM15'']" 9600]
  by (simp add: tx_result_def flaky_world_def)

lemma flaky_1: "tx_result flaky_world [''COM15''] 9600 1 5 = Inr False"
  using mute_session_fails [of 5 "[''COM15'']" 9600]
  by (simp add: tx_result_def flaky_world_def)

text \<open>
  C7. \<open>test_for_length\<close> tests the lengths \<open>min_length\<close>, \<open>min_length + 1\<close>, ... one
  transmission each, and returns at the first failure with the last length recorded:
  the length tested just before, or, when the failure is at \<open>min_length\<close>, the value
  recorded before the pass, 0 in the first pass and \<open>max_length - 1\<close> in the second.
  With no failure in two passes it returns the last length tested, and 0 when no
  length is tested.
\<close>

theorem test_for_length_first_failure:
  assumes "m = nat (max_length - min_length)"
  shows "(\<forall>i<m. (\<forall>k<i. tx_result w ports speed (n + k) (min_length + int k) = Inr True) \<and>
                 tx_result w ports speed (n + i) (min_length + int i) = Inr False \<longrightarrow>
            test_for_length w ports speed min_length max_length n
              = (Inr (if i = 0 then 0 else min_length + int i - 1), n + i + 1))
       \<and> ((\<forall>k<m. tx_result w ports speed (n + k) (min_length + int k) = Inr True) \<longrightarrow>
            (\<forall>i<m. (\<forall>k<i. tx_result w ports speed (n + m + k) (min_length + int k) = Inr True) \<and>
                   tx_result w ports speed (n + m + i) (min_length + int i) = Inr False \<longrightarrow>
               test_for_length w ports speed min_length max_length n
                 = (Inr (if i = 0 then max_length - 1 else min_length + int i - 1), n + m + i + 1))
          \<and> ((\<forall>k<m. tx_result w ports speed (n + m + k) (min_length + int k) = Inr True) \<longrightarrow>
               test_for_length w ports speed min_length max_length n
                 = (Inr (if m = 0 then 0 else max_length - 1), n + 2 * m)))"
proof (intro conjI allI impI)
  fix i
  assume i: "i < m"
    and h: "(\<forall>k<i. tx_result w ports speed (n + k) (min_length + int k) = Inr True) \<and>
                 tx_result w ports speed (n + i) (min_length + int i) = Inr False"
  from length_sweep_first_fail [of i max_length min_length w ports speed n 0] i h assms
  have "length_sweep w ports speed max_length min_length 0 n
          = (Inr (Returned (if i = 0 then 0 else min_length + int i - 1)), n + i + 1)"
    by blast
  then show "test_for_length w ports speed min_length max_length n
              = (Inr (if i = 0 then 0 else min_length + int i - 1), n + i + 1)"
    by (simp add: test_for_length_def numeral_2_eq_2)
next
  fix i
  assume ok1: "\<forall>k<m. tx_result w ports speed (n + k) (min_length + int k) = Inr True"
    and i: "i < m"
    and h: "(\<forall>k<i. tx_result w ports speed (n + m + k) (min_length + int k) = Inr True) \<and>
                   tx_result w ports speed (n + m + i) (min_length + int i) = Inr False"
  have lt: "min_length < max_length" using i assms by linarith
  from length_sweep_all_ok [of max_length min_length w ports speed n 0] ok1 assms lt
  have p1: "length_sweep w ports speed max_length min_length 0 n
              = (Inr (Completed (max_length - 1)), n + m)" by simp
  from length_sweep_first_fail [of i max_length min_length w ports speed "n + m" "max_length - 1"]
    i h assms
  have p2: "length_sweep w ports speed max_length min_length (max_length - 1) (n + m)
          = (Inr (Returned (if i = 0 then max_length - 1 else min_length + int i - 1)), n + m + i + 1)"
    by blast
  show "test_for_length w ports speed min_length max_length n
          = (Inr (if i = 0 then max_length - 1 else min_length + int i - 1), n + m + i + 1)"
    by (simp add: test_for_length_def numeral_2_eq_2 p1 p2)
next
  assume ok1: "\<forall>k<m. tx_result w ports speed (n + k) (min_length + int k) = Inr True"
    and ok2: "\<forall>k<m. tx_result w ports speed (n + m + k) (min_length + int k) = Inr True"
  from length_sweep_all_ok [of max_length min_length w ports speed n 0] ok1 assms
  have p1: "length_sweep w ports speed max_length min_length 0 n
              = (Inr (Completed (if min_length < max_length then max_length - 1 else 0)), n + m)"
    by simp
  from length_sweep_all_ok [of max_length min_length w ports speed "n + m"
      "if min_length < max_length then max_length - 1 else 0"] ok2 assms
  have p2: "length_sweep w ports speed max_length min_length
               (if min_length < max_length then max_length - 1 else 0) (n + m)
              = (Inr (Completed (if min_length < max_length then max_length - 1 else 0)), n + m + m)"
    by simp
  have "m = 0 \<longleftrightarrow> \<not> min_length < max_length" using assms by linarith
  then show "test_for_length w ports speed min_length max_length n
          = (Inr (if m = 0 then 0 else max_length - 1), n + 2 * m)"
    by (simp add: test_for_length_def numeral_2_eq_2 p1 p2)
qed

theorem test_for_length_first_failure_witness:
  "(1::nat) = nat (6 - 5)
   \<and> tx_result flaky_world [''COM15''] 9600 0 5 = Inr True
   \<and> tx_result flaky_world [''COM15''] 9600 1 5 = Inr False
   \<and> test_for_length flaky_world [''COM15''] 9600 5 6 0 = (Inr 5, 2)"
proof -
  have m: "(1::nat) = nat (6 - 5)" by simp
  from test_for_length_first_failure [OF m, of flaky_world "[''COM15'']" 9600 0]
  have "(\<forall>k<1. tx_result flaky_world [''COM15''] 9600 (0 + k) (5 + int k) = Inr True) \<longrightarrow>
          (\<forall>i<1. (\<forall>k<i. tx_result flaky_world [''COM15''] 9600 (0 + 1 + k) (5 + int k) = Inr True) \<and>
                 tx_result flaky_world [''COM15''] 9600 (0 + 1 + i) (5 + int i) = Inr False \<longrightarrow>
             test_for_length flaky_world [''COM15''] 9600 5 6 0
               = (Inr (if i = 0 then 6 - 1 else 5 + int i - 1), 0 + 1 + i + 1))"
    by blast
  then have "test_for_length flaky_world [''COM15''] 9600 5 6 0 = (Inr 5, 2)"
    using flaky_0 flaky_1 by simp
  then show ?thesis using flaky_0 flaky_1 by simp
qed

text \<open>
  Between the lengths 5 and 6 each pass is one transmission, of length 5. When the first
  is echoed and the second is not, the second pass fails at 5 and 5 is returned.
\<close>

theorem returns_length_failed_in_same_pass_counterexample:
  "test_for_length flaky_world [''COM15''] 9600 5 6 0 = (Inr 5, 2)
   \<and> tx_result flaky_world [''COM15''] 9600 1 5 = Inr False"
proof -
  have a: "length_sweep flaky_world [''COM15''] 9600 6 5 0 0 = (Inr (Completed 5), 1)"
    using length_sweep_all_ok [of 6 5 flaky_world "[''COM15'']" 9600 0 0] flaky_0 by simp
  have b: "length_sweep flaky_world [''COM15''] 9600 6 5 5 1 = (Inr (Returned 5), 2)"
    using length_sweep_first_fail [of 0 6 5 flaky_world "[''COM15'']" 9600 1 5] flaky_1 by simp
  show ?thesis
    using a b flaky_1 by (simp add: test_for_length_def numeral_2_eq_2)
qed

subsection \<open>Delay profiler\<close>

lemma delay_runs_none:
  "samples \<le> i \<Longrightarrow> delay_runs w ports len speed samples i delays n = (Inr delays, n)"
  by (subst delay_runs.simps) simp

lemma delay_runs_break:
  assumes "i < samples" and "tx_result w ports speed n len = Inr False"
  shows "delay_runs w ports len speed samples i delays n = (Inr delays, Suc n)"
  using assms by (subst delay_runs.simps) (auto simp: tx_result_def split: sum.splits)

lemma delay_runs_step:
  assumes "i < samples" and "test_transmission (w n) ports len speed = Inr (True, d)"
  shows "delay_runs w ports len speed samples i delays n
           = delay_runs w ports len speed samples (i + 1) (delays @ d) (Suc n)"
  using assms by (subst delay_runs.simps) simp

lemma no_samples_report:
  assumes "delay_runs w ports len speed samples 0 [] n = (Inr [], n')"
  shows "test_for_delay w ports len speed samples n
           = (Inr \<lparr>maximum_delay = 0, average_delay = NaN, minimum_delay = 0\<rparr>, n')"
  using assms by (simp add: test_for_delay_def f64_div_def)

text \<open>
  C9. With \<open>samples = 0\<close> (or less), and when the first run fails, no latency is collected
  and \<open>test_for_delay\<close> ends without a panic: the mean of the empty sequence is \<open>0/0\<close>,
  the floating-point value NaN, and so it is whenever the sequence collected is empty.
\<close>

theorem test_for_delay_no_data:
  "(samples \<le> 0 \<longrightarrow>
      test_for_delay w ports len speed samples n
        = (Inr \<lparr>maximum_delay = 0, average_delay = NaN, minimum_delay = 0\<rparr>, n))
   \<and> (0 < samples \<and> tx_result w ports speed n len = Inr False \<longrightarrow>
      test_for_delay w ports len speed samples n
        = (Inr \<lparr>maximum_delay = 0, average_delay = NaN, minimum_delay = 0\<rparr>, Suc n))
   \<and> (\<forall>n'. delay_runs w ports len speed samples 0 [] n = (Inr [], n') \<longrightarrow>
      test_for_delay w ports len speed samples n
        = (Inr \<lparr>maximum_delay = 0, average_delay = NaN, minimum_delay = 0\<rparr>, n'))"
proof (intro conjI allI impI)
  assume "samples \<le> 0"
  then have "delay_runs w ports len speed samples 0 [] n = (Inr [], n)"
    by (rule delay_runs_none)
  then show "test_for_delay w ports len speed samples n
        = (Inr \<lparr>maximum_delay = 0, average_delay = NaN, minimum_delay = 0\<rparr>, n)"
    by (rule no_samples_report)
next
  assume "0 < samples \<and> tx_result w ports speed n len = Inr False"
  then have "delay_runs w ports len speed samples 0 [] n = (Inr [], Suc n)"
    by (simp add: delay_runs_break)
  then show "test_for_delay w ports len speed samples n
        = (Inr \<lparr>maximum_delay = 0, average_delay = NaN, minimum_delay = 0\<rparr>, Suc n)"
    by (rule no_samples_report)
next
  fix n'
  assume "delay_runs w ports len speed samples 0 [] n = (Inr [], n')"
  then show "test_for_delay w ports len speed samples n
        = (Inr \<lparr>maximum_delay = 0, average_delay = NaN, minimum_delay = 0\<rparr>, n')"
    by (rule no_samples_report)
qed

lemma mute_world_10: "tx_result mute_world [''COM15''] 9600 0 10 = Inr False"
  using mute_session_fails [of 10 "[''COM15'']" 9600] by (simp add: tx_result_def mute_world_def)

theorem test_for_delay_no_data_witness:
  "(0::int) \<le> 0 \<and> (0::int) < 10
   \<and> tx_result mute_world [''COM15''] 9600 0 10 = Inr False
   \<and> delay_runs echo_world [''COM15''] 10 9600 0 0 [] 0 = (Inr [], 0)
   \<and> test_for_delay echo_world [''COM15''] 10 9600 0 0
        = (Inr \<lparr>maximum_delay = 0, average_delay = NaN, minimum_delay = 0\<rparr>, 0)
   \<and> test_for_delay mute_world [''COM15''] 10 9600 10 0
        = (Inr \<lparr>maximum_delay = 0, average_delay = NaN, minimum_delay = 0\<rparr>, 1)"
  using test_for_delay_no_data [where samples = 0 and w = echo_world and ports = "[''COM15'']"
        and len = 10 and speed = 9600 and n = 0]
    test_for_delay_no_data [where samples = 10 and w = mute_world
        and ports = "[''COM15'']" and len = 10 and speed = 9600 and n = 0]
    mute_world_10
  by (simp add: delay_runs_none)

lemma instant_0: "test_transmission (instant_world 0) [''COM15''] 10 9600 = Inr (True, [0])"
  using echo_session_succeeds [of 10 0 "[''COM15'']" 9600] by (simp add: instant_world_def)

lemma instant_1: "test_transmission (instant_world (Suc 0)) [''COM15''] 10 9600 = Inr (True, [5])"
  using echo_session_succeeds [of 10 5 "[''COM15'']" 9600] by (simp add: instant_world_def)

lemma instant_runs: "delay_runs instant_world [''COM15''] 10 9600 2 0 [] 0 = (Inr [0, 5], 2)"
proof -
  have "delay_runs instant_world [''COM15''] 10 9600 2 0 [] 0
          = delay_runs instant_world [''COM15''] 10 9600 2 1 [0] (Suc 0)"
    using delay_runs_step [of 0 2 instant_world 0 "[''COM15'']" 10 9600 "[0]" "[]"] instant_0
    by simp
  also have "\<dots> = delay_runs instant_world [''COM15''] 10 9600 2 2 [0, 5] (Suc (Suc 0))"
    using delay_runs_step [of 1 2 instant_world "Suc 0" "[''COM15'']" 10 9600 "[5]" "[0]"] instant_1
    by simp
  also have "\<dots> = (Inr [0, 5], 2)"
    by (simp add: delay_runs_none)
  finally show ?thesis .
qed

text \<open>
  C8. A latency of zero is taken for "not set yet" by lines 207-212: with the samples 0
  and 5 the minimum reported is 5, above the mean 2.5.
\<close>

theorem mean_below_reported_minimum:
  "test_for_delay instant_world [''COM15''] 10 9600 2 0
     = (Inr \<lparr>maximum_delay = 5, average_delay = Finite (5 / 2), minimum_delay = 5\<rparr>, 2)"
  by (simp add: test_for_delay_def instant_runs f64_div_def)

end
